theory Spec2Isabelle
  imports Complex_Main "HOL-Library.Sublist"
begin

section \<open>Python strings\<close>

text \<open>
  A Python \<open>str\<close> is a sequence of Unicode code points. The source scans for the
  full-width brackets U+FF08 and U+FF09, which do not fit an 8-bit character, so a
  string is a list of code points. \<open>u\<close> reads an ASCII literal.
\<close>

type_synonym ustring = "nat list"

definition u :: "string \<Rightarrow> ustring" where
  "u s = map of_char s"

text \<open>
  \<open>str.isspace\<close> on one character; the same set decides \<open>\s\<close> and \<open>\S\<close> of
  \<open>re\<close> on a \<open>str\<close> pattern and what \<open>str.strip()\<close> removes.
\<close>

definition is_space :: "nat \<Rightarrow> bool" where
  "is_space c \<longleftrightarrow>
     (9 \<le> c \<and> c \<le> 13) \<or> (28 \<le> c \<and> c \<le> 32) \<or> c = 133 \<or> c = 160 \<or> c = 5760 \<or>
     (8192 \<le> c \<and> c \<le> 8202) \<or> c = 8232 \<or> c = 8233 \<or> c = 8239 \<or> c = 8287 \<or> c = 12288"

definition strip :: "ustring \<Rightarrow> ustring" where
  "strip s = rev (dropWhile is_space (rev (dropWhile is_space s)))"

section \<open>The stream text filter (tts\_interface.py)\<close>

text \<open>The two tuples the scan tests membership in: \<open>('(', U+FF08)\<close> and \<open>(')', U+FF09)\<close>.\<close>

definition is_open :: "nat \<Rightarrow> bool" where
  "is_open c \<longleftrightarrow> c = 40 \<or> c = 65288"

definition is_close :: "nat \<Rightarrow> bool" where
  "is_close c \<longleftrightarrow> c = 41 \<or> c = 65289"

text \<open>
  The \<open>for char in text\<close> loop: the flag \<open>_in_brackets\<close> and the collected
  characters. An opening bracket sets the flag, a closing bracket clears it, both are
  skipped; any other character is collected when the flag is clear.
\<close>

fun scan_chars :: "bool \<Rightarrow> ustring \<Rightarrow> bool \<times> ustring" where
  "scan_chars b [] = (b, [])"
| "scan_chars b (c # cs) =
     (if is_open c then scan_chars True cs
      else if is_close c then scan_chars False cs
      else if \<not> b then (let (b', out) = scan_chars b cs in (b', c # out))
      else scan_chars b cs)"

subsection \<open>The pattern \<open>https?://\S+\<close>\<close>

text \<open>A literal at the start of the text: what follows it, if it is there.\<close>

fun strip_prefix :: "ustring \<Rightarrow> ustring \<Rightarrow> ustring option" where
  "strip_prefix [] s = Some s"
| "strip_prefix (p # ps) [] = None"
| "strip_prefix (p # ps) (c # cs) = (if p = c then strip_prefix ps cs else None)"

text \<open>\<open>://\S+\<close>: the greedy \<open>\S+\<close> takes the whole run of non-space characters,
  and needs at least one.\<close>

definition match_tail :: "ustring \<Rightarrow> ustring option" where
  "match_tail s =
     (case strip_prefix (u ''://'') s of
        None \<Rightarrow> None
      | Some q \<Rightarrow>
          if takeWhile (\<lambda>c. \<not> is_space c) q = [] then None
          else Some (dropWhile (\<lambda>c. \<not> is_space c) q))"

text \<open>
  A match of the whole pattern at the start of the text: the text after the match.
  \<open>s?\<close> is greedy: the branch with \<open>s\<close> is tried first, the one without it on
  failure.
\<close>

definition match_url :: "ustring \<Rightarrow> ustring option" where
  "match_url s =
     (case strip_prefix (u ''http'') s of
        None \<Rightarrow> None
      | Some r \<Rightarrow>
          (case (case strip_prefix (u ''s'') r of None \<Rightarrow> None | Some r' \<Rightarrow> match_tail r') of
             Some rest \<Rightarrow> Some rest
           | None \<Rightarrow> match_tail r))"

lemma strip_prefix_length:
  "strip_prefix p s = Some r \<Longrightarrow> length r + length p = length s"
  by (induction p s rule: strip_prefix.induct) (auto split: if_splits)

lemma match_tail_length: "match_tail s = Some r \<Longrightarrow> length r < length s"
proof -
  assume a: "match_tail s = Some r"
  then obtain q where q: "strip_prefix (u ''://'') s = Some q"
    and r: "r = dropWhile (\<lambda>c. \<not> is_space c) q" and ne: "takeWhile (\<lambda>c. \<not> is_space c) q \<noteq> []"
    by (auto simp: match_tail_def split: option.splits if_splits)
  have "length r \<le> length q" using r by (simp add: length_dropWhile_le)
  moreover have "length q < length s" using strip_prefix_length [OF q] by (simp add: u_def)
  ultimately show ?thesis by simp
qed

lemma match_url_length: "match_url s = Some r \<Longrightarrow> length r < length s"
proof -
  assume a: "match_url s = Some r"
  then obtain t where t: "strip_prefix (u ''http'') s = Some t"
    by (auto simp: match_url_def split: option.splits)
  have ts: "length t \<le> length s" using strip_prefix_length [OF t] by simp
  from a t have "(\<exists>t'. strip_prefix (u ''s'') t = Some t' \<and> match_tail t' = Some r) \<or> match_tail t = Some r"
    by (auto simp: match_url_def split: option.splits)
  then show ?thesis
  proof
    assume "\<exists>t'. strip_prefix (u ''s'') t = Some t' \<and> match_tail t' = Some r"
    then obtain t' where 1: "strip_prefix (u ''s'') t = Some t'" and 2: "match_tail t' = Some r"
      by blast
    from strip_prefix_length [OF 1] match_tail_length [OF 2] ts show ?thesis by simp
  next
    assume "match_tail t = Some r"
    from match_tail_length [OF this] ts show ?thesis by simp
  qed
qed

text \<open>
  \<open>re.sub(r'https?://\S+', '', result)\<close>: scanning from the left, each match is
  dropped and the scan goes on where the match ended; a character where no match starts
  is kept.
\<close>

function remove_urls :: "ustring \<Rightarrow> ustring" where
  "remove_urls [] = []"
| "remove_urls (c # cs) =
     (case match_url (c # cs) of
        Some rest \<Rightarrow> remove_urls rest
      | None \<Rightarrow> c # remove_urls cs)"
  by pat_completeness auto
termination
  by (relation "measure length") (auto dest: match_url_length)

text \<open>
  \<open>_filter_stream_text\<close>. The attribute \<open>_in_brackets\<close> is created lazily, so the
  state is \<open>None\<close> while it does not exist yet. A falsy text (\<open>None\<close> or the empty
  string) is returned as it is, before the attribute is touched.
\<close>

definition filter_stream_text :: "bool option \<Rightarrow> ustring option \<Rightarrow> bool option \<times> ustring option" where
  "filter_stream_text st text =
     (case text of
        None \<Rightarrow> (st, None)
      | Some t \<Rightarrow>
          if t = [] then (st, Some t)
          else
            (let b0 = (case st of None \<Rightarrow> False | Some b \<Rightarrow> b);
                 (b, filtered_chars) = scan_chars b0 t
             in (Some b, Some (remove_urls filtered_chars))))"

text \<open>The fragments of one session, filtered in order; the returned fragments.\<close>

fun filter_session :: "bool option \<Rightarrow> ustring list \<Rightarrow> bool option \<times> ustring option list" where
  "filter_session st [] = (st, [])"
| "filter_session st (t # ts) =
     (let (st1, out) = filter_stream_text st (Some t);
          (st2, outs) = filter_session st1 ts
      in (st2, out # outs))"


subsection \<open>What the filter is measured against\<close>

text \<open>\<open>re.search(r'https?://\S+', s) is not None\<close>: a match starts somewhere.\<close>

fun url_search :: "ustring \<Rightarrow> bool" where
  "url_search [] = False"
| "url_search (c # cs) = (match_url (c # cs) \<noteq> None \<or> url_search cs)"

text \<open>The pattern matches at the start of a text that begins with one of the two
  schemes and one character that is not a space.\<close>

definition starts_url :: "ustring \<Rightarrow> bool" where
  "starts_url s \<longleftrightarrow> (\<exists>x q. (s = u ''http://'' @ x # q \<or> s = u ''https://'' @ x # q) \<and> \<not> is_space x)"

text \<open>
  Position \<open>i\<close> lies in a suppressed span: an opening bracket stands before it with
  no closing bracket in between. A character is speakable when it is no bracket and lies
  in no such span.
\<close>

definition in_bracket_span :: "ustring \<Rightarrow> nat \<Rightarrow> bool" where
  "in_bracket_span x i \<longleftrightarrow>
     (\<exists>j<i. is_open (x ! j) \<and> (\<forall>k. j < k \<and> k < i \<longrightarrow> \<not> is_close (x ! k)))"

definition speakable :: "ustring \<Rightarrow> nat \<Rightarrow> bool" where
  "speakable x i \<longleftrightarrow> \<not> is_open (x ! i) \<and> \<not> is_close (x ! i) \<and> \<not> in_bracket_span x i"

definition speakable_text :: "ustring \<Rightarrow> ustring" where
  "speakable_text x = map (\<lambda>i. x ! i) (filter (speakable x) [0..<length x])"

fun text_of :: "ustring option \<Rightarrow> ustring" where
  "text_of None = []"
| "text_of (Some t) = t"

text \<open>
  Brackets read as nested pairs: the number of brackets opened and not yet closed at the
  end of a text, starting from \<open>d\<close>. A character lies between a bracket and the
  closing bracket matching it when the depth before it is positive.
\<close>

fun nesting_depth :: "nat \<Rightarrow> ustring \<Rightarrow> nat" where
  "nesting_depth d [] = d"
| "nesting_depth d (c # cs) =
     (if is_open c then nesting_depth (Suc d) cs
      else if is_close c then nesting_depth (d - 1) cs
      else nesting_depth d cs)"

section \<open>The audio generation dispatcher and the SiliconFlow backend\<close>

text \<open>Exceptions as values.\<close>

datatype py_error = TypeError | OSError | ConnectionError | HTTPError nat | SearchError

text \<open>
  \<open>str.replace(old, '')\<close> for a two-character \<open>old\<close>: one pass from the left over
  non-overlapping occurrences.
\<close>

fun remove_pair :: "nat \<Rightarrow> nat \<Rightarrow> ustring \<Rightarrow> ustring" where
  "remove_pair a b (x # y # xs) =
     (if x = a \<and> y = b then remove_pair a b xs else x # remove_pair a b (y # xs))"
| "remove_pair a b xs = xs"

text \<open>
  Lines 36 to 40 of \<open>generate_audio\<close>: the URL pass, then \<open>'()'\<close>, the full-width
  pair U+FF08 U+FF09, \<open>'[]'\<close> and the pair U+3010 U+3011, in this order.
\<close>

definition clean_text :: "ustring \<Rightarrow> ustring" where
  "clean_text text =
     remove_pair 12304 12305 (remove_pair 91 93
       (remove_pair 65288 65289 (remove_pair 40 41 (remove_urls text))))"

record siliconflow_tts =
  api_url :: "ustring option"
  api_key :: ustring
  default_model :: ustring
  default_voice :: ustring
  sample_rate :: int
  response_format :: ustring
  stream_flag :: bool
  speed :: real
  gain :: real

record payload =
  p_input :: ustring
  p_response_format :: ustring
  p_sample_rate :: int
  p_stream :: bool
  p_speed :: real
  p_gain :: real
  p_model :: ustring
  p_voice :: ustring

record request =
  req_url :: ustring
  req_json :: payload
  req_headers :: "(ustring \<times> ustring) list"

type_synonym bytes = "char list"

text \<open>
  What \<open>requests.request\<close> does: it raises, or it returns a response with a status
  code and a body.
\<close>

datatype http_outcome = Request_Raises | Response nat bytes

text \<open>
  The world outside the process, as far as one call reads it: which paths exist, whether
  creating the cache directory, opening the cache file or writing to it fails, what the
  server answers, and the \<open>os.path.join\<close> of the platform.
\<close>

record env =
  path_exists :: "ustring \<Rightarrow> bool"
  makedirs_fails :: bool
  open_fails :: "ustring \<Rightarrow> bool"
  write_fails :: "ustring \<Rightarrow> bool"
  http :: "request \<Rightarrow> http_outcome"
  path_join :: "ustring \<Rightarrow> ustring \<Rightarrow> ustring"

text \<open>What one call does to the world, in order.\<close>

datatype event =
    Generate_Audio_Called "ustring option"
  | Makedirs ustring
  | Posted request
  | File_Opened ustring
  | File_Written ustring bytes

text \<open>\<open>generate_cache_file_name\<close>: the cache directory is created when it is absent.\<close>

definition generate_cache_file_name ::
  "env \<Rightarrow> ustring option \<Rightarrow> ustring \<Rightarrow> (py_error + ustring) \<times> event list" where
  "generate_cache_file_name e file_name_no_ext file_extension =
     (let cache_dir = u ''cache'';
          name = (case file_name_no_ext of None \<Rightarrow> u ''temp'' | Some n \<Rightarrow> n);
          file_name = name @ u ''.'' @ file_extension;
          path = path_join e cache_dir file_name
      in if path_exists e cache_dir then (Inr path, [])
         else if makedirs_fails e then (Inl OSError, [])
         else (Inr path, [Makedirs cache_dir]))"

definition build_payload :: "siliconflow_tts \<Rightarrow> ustring \<Rightarrow> payload" where
  "build_payload self text =
     \<lparr>p_input = text, p_response_format = response_format self,
      p_sample_rate = sample_rate self, p_stream = stream_flag self, p_speed = speed self,
      p_gain = gain self, p_model = default_model self, p_voice = default_voice self\<rparr>"

definition build_headers :: "siliconflow_tts \<Rightarrow> (ustring \<times> ustring) list" where
  "build_headers self =
     [(u ''Authorization'', u ''Bearer '' @ api_key self),
      (u ''Content-Type'', u ''application/json'')]"

text \<open>\<open>Response.raise_for_status\<close> raises for the 4xx and 5xx codes.\<close>

definition raise_for_status :: "nat \<Rightarrow> bool" where
  "raise_for_status status \<longleftrightarrow> 400 \<le> status \<and> status < 600"

text \<open>The body of the \<open>try\<close> block of \<open>generate_audio\<close>, lines 74 to 84.\<close>

definition try_request ::
  "siliconflow_tts \<Rightarrow> env \<Rightarrow> payload \<Rightarrow> ustring \<Rightarrow> (py_error + ustring) \<times> event list" where
  "try_request self e pl cache_file =
     (case api_url self of
        None \<Rightarrow> (Inr [], [])
      | Some url \<Rightarrow>
          (let req = \<lparr>req_url = url, req_json = pl, req_headers = build_headers self\<rparr> in
           case http e req of
             Request_Raises \<Rightarrow> (Inl ConnectionError, [Posted req])
           | Response status body \<Rightarrow>
               if raise_for_status status then (Inl (HTTPError status), [Posted req])
               else if open_fails e cache_file then (Inl OSError, [Posted req])
               else if write_fails e cache_file
                 then (Inl OSError, [Posted req, File_Opened cache_file])
               else (Inr cache_file,
                     [Posted req, File_Opened cache_file, File_Written cache_file body])))"

text \<open>
  \<open>SiliconFlowTTS.generate_audio\<close>. \<open>re.sub\<close> on \<open>None\<close> raises, outside the
  \<open>try\<close> block, and so does a failing \<open>os.makedirs\<close>; \<open>except Exception\<close>
  turns whatever the \<open>try\<close> block raises into the empty string.
\<close>

definition generate_audio ::
  "siliconflow_tts \<Rightarrow> env \<Rightarrow> ustring option \<Rightarrow> ustring option \<Rightarrow> (py_error + ustring) \<times> event list" where
  "generate_audio self e text file_name_no_ext =
     (case text of
        None \<Rightarrow> (Inl TypeError, [])
      | Some original_text \<Rightarrow>
          (let t = clean_text original_text in
           if strip t = [] then (Inr [], [])
           else
             (case generate_cache_file_name e file_name_no_ext (response_format self) of
                (Inl err, evs) \<Rightarrow> (Inl err, evs)
              | (Inr cache_file, evs) \<Rightarrow>
                  (case try_request self e (build_payload self t) cache_file of
                     (Inl err, evs') \<Rightarrow> (Inr [], evs @ evs')
                   | (Inr path, evs') \<Rightarrow> (Inr path, evs @ evs')))))"

text \<open>
  \<open>TTSInterface.async_generate_audio\<close>, over any backend \<open>generate\<close>: the text is
  filtered, and the backend is called with the filtered text whatever it is.
\<close>

definition async_generate_audio ::
  "(ustring option \<Rightarrow> ustring option \<Rightarrow> (py_error + ustring) \<times> event list) \<Rightarrow>
   bool option \<Rightarrow> ustring option \<Rightarrow> ustring option \<Rightarrow>
   bool option \<times> (py_error + ustring) \<times> event list" where
  "async_generate_audio generate st text file_name_no_ext =
     (let (st', safe_text) = filter_stream_text st text;
          (r, evs) = generate safe_text file_name_no_ext
      in (st', r, Generate_Audio_Called safe_text # evs))"

text \<open>The texts of the requests that were sent, in order.\<close>

fun posted_inputs :: "event list \<Rightarrow> ustring list" where
  "posted_inputs [] = []"
| "posted_inputs (Posted r # evs) = p_input (req_json r) # posted_inputs evs"
| "posted_inputs (ev # evs) = posted_inputs evs"

text \<open>One of the four empty bracket pairs that the backend removes occurs in the text.\<close>

definition has_empty_pair :: "ustring \<Rightarrow> bool" where
  "has_empty_pair s \<longleftrightarrow>
     sublist [40, 41] s \<or> sublist [65288, 65289] s \<or> sublist [91, 93] s \<or>
     sublist [12304, 12305] s"

text \<open>A configuration and a family of worlds to evaluate the backend on.\<close>

definition example_tts :: siliconflow_tts where
  "example_tts =
     \<lparr>api_url = Some (u ''https://api.example/v1/audio/speech''), api_key = u ''key'',
      default_model = u ''model'', default_voice = u ''voice'', sample_rate = 32000,
      response_format = u ''mp3'', stream_flag = False, speed = 1, gain = 0\<rparr>"

text \<open>The opening characters of the four pairs, and the characters of \<open>https://\<close>.\<close>

definition is_pair_open :: "nat \<Rightarrow> bool" where
  "is_pair_open c \<longleftrightarrow> c = 40 \<or> c = 65288 \<or> c = 91 \<or> c = 12304"

definition is_scheme_char :: "nat \<Rightarrow> bool" where
  "is_scheme_char c \<longleftrightarrow> c \<in> set (u ''https:/'')"

text \<open>Somewhere in the text, \<open>x\<close> stands right before one of the four empty pairs.\<close>

definition pair_after :: "nat \<Rightarrow> ustring \<Rightarrow> bool" where
  "pair_after x s \<longleftrightarrow>
     sublist [x, 40, 41] s \<or> sublist [x, 65288, 65289] s \<or> sublist [x, 91, 93] s \<or>
     sublist [x, 12304, 12305] s"

text \<open>
  No empty pair stands right after an opening bracket (as in \<open>(())\<close> and
  \<open>([])\<close>), and none stands right after a character of \<open>https://\<close> (as in
  \<open>http:()//x\<close>).
\<close>

definition no_nested_pair :: "ustring \<Rightarrow> bool" where
  "no_nested_pair s \<longleftrightarrow> \<not> list_ex (\<lambda>x. is_pair_open x \<and> pair_after x s) s"

definition no_pair_in_scheme :: "ustring \<Rightarrow> bool" where
  "no_pair_in_scheme s \<longleftrightarrow> \<not> list_ex (\<lambda>x. is_scheme_char x \<and> pair_after x s) s"

text \<open>The same two conditions for any set of characters, as the proofs use them.\<close>

definition four_pair :: "nat \<Rightarrow> nat \<Rightarrow> bool" where
  "four_pair a b \<longleftrightarrow>
     (a = 40 \<and> b = 41) \<or> (a = 65288 \<and> b = 65289) \<or> (a = 91 \<and> b = 93) \<or>
     (a = 12304 \<and> b = 12305)"

definition clear_of :: "(nat \<Rightarrow> bool) \<Rightarrow> ustring \<Rightarrow> bool" where
  "clear_of g s \<longleftrightarrow> (\<forall>x a b. g x \<and> four_pair a b \<longrightarrow> \<not> sublist [x, a, b] s)"

text \<open>
  \<open>posixpath.join\<close> of two components: an absolute second component replaces the
  first one; otherwise the two are joined by one slash, unless the first is empty or
  ends with one.
\<close>

definition posix_join :: "ustring \<Rightarrow> ustring \<Rightarrow> ustring" where
  "posix_join a b =
     (if b \<noteq> [] \<and> hd b = 47 then b
      else if a = [] \<or> last a = 47 then a @ b
      else a @ [47] @ b)"

definition example_env :: "http_outcome \<Rightarrow> bool \<Rightarrow> env" where
  "example_env answer disk_full =
     \<lparr>path_exists = (\<lambda>p. False), makedirs_fails = False, open_fails = (\<lambda>p. False),
      write_fails = (\<lambda>p. disk_full), http = (\<lambda>r. answer), path_join = posix_join\<rparr>"

section \<open>Context retrieval (rag\_agent.py)\<close>

text \<open>
  The vector store is an outside collaborator: \<open>similarity_search(query, k)\<close> raises
  or returns documents, of which the code reads \<open>page_content\<close>. Loading the store in
  \<open>__init__\<close> raises or returns a store.
\<close>

datatype search_outcome = Search_Raises | Search_Returns "ustring list"

type_synonym vector_store = "ustring \<Rightarrow> nat \<Rightarrow> search_outcome"

datatype load_outcome = Load_Raises | Load_Returns vector_store

text \<open>\<open>__init__\<close>: the value left in \<open>self.vector_store\<close>.\<close>

definition rag_init :: "load_outcome \<Rightarrow> vector_store option" where
  "rag_init l = (case l of Load_Raises \<Rightarrow> None | Load_Returns vs \<Rightarrow> Some vs)"

text \<open>\<open>str(n)\<close> for a natural number.\<close>

fun str_nat :: "nat \<Rightarrow> ustring" where
  "str_nat n = (if n < 10 then [48 + n] else str_nat (n div 10) @ [48 + n mod 10])"

declare str_nat.simps [simp del]

fun join :: "ustring \<Rightarrow> ustring list \<Rightarrow> ustring" where
  "join sep [] = []"
| "join sep [x] = x"
| "join sep (x # y # xs) = x @ sep @ join sep (y # xs)"

text \<open>The body of the \<open>try\<close> block of \<open>_retrieve_context\<close>.\<close>

definition try_retrieve :: "vector_store \<Rightarrow> ustring \<Rightarrow> nat \<Rightarrow> py_error + ustring" where
  "try_retrieve vs query k =
     (case vs query k of
        Search_Raises \<Rightarrow> Inl SearchError
      | Search_Returns docs \<Rightarrow>
          if docs = [] then Inr []
          else Inr (join [10, 10]
                 (map (\<lambda>(i, doc). [36164, 26009] @ str_nat (i + 1) @ u '': '' @ doc)
                    (enumerate 0 docs))))"

definition retrieve_context :: "vector_store option \<Rightarrow> ustring \<Rightarrow> nat \<Rightarrow> py_error + ustring" where
  "retrieve_context vector_store query k =
     (case vector_store of
        None \<Rightarrow> Inr []
      | Some vs \<Rightarrow> (case try_retrieve vs query k of Inl err \<Rightarrow> Inr [] | Inr context \<Rightarrow> Inr context))"

text \<open>
  Messages as \<open>_to_messages\<close> reads them: a role and a content that is a string or a
  list of parts (dictionaries, of which the keys \<open>type\<close> and \<open>text\<close> are read).
\<close>

datatype py_value = Str ustring | Opaque

type_synonym part = "ustring \<rightharpoonup> py_value"

datatype content = Text ustring | Parts "part list" | Other_Content

record message =
  role :: ustring
  content :: content

text \<open>The loop over the parts: the first part of type \<open>text\<close> gets the new text.\<close>

fun set_first_text :: "ustring \<Rightarrow> part list \<Rightarrow> part list" where
  "set_first_text new [] = []"
| "set_first_text new (item # items) =
     (if item (u ''type'') = Some (Str (u ''text''))
      then item(u ''text'' \<mapsto> Str new) # items
      else item # set_first_text new items)"

definition augmented_content :: "ustring \<Rightarrow> ustring \<Rightarrow> ustring \<Rightarrow> ustring" where
  "augmented_content date_info context user_text =
     [12304, 31995, 32479, 26102, 38388, 12305, 10, 29616, 22312, 26159, 65306] @ date_info @
     [10, 10] @
     [12304, 21442, 32771, 36164, 26009, 12305, 10] @ context @ [10, 10] @
     [12304, 29992, 25143, 38382, 39064, 12305, 10] @ user_text @ [10, 10] @
     [35831, 20248, 20808, 22522, 20110, 19978, 36848, 21442, 32771, 36164, 26009, 22238,
      31572, 29992, 25143, 38382, 39064, 12290, 22914, 26524, 36164, 26009, 19981, 36275,
      65292, 20877, 20351, 29992, 20320, 30340, 36890, 29992, 30693, 35782, 12290] @
     [23545, 20110, 28041, 21450, 30456, 23545, 26085, 26399, 30340, 38382, 39064, 65288,
      22914, 8220, 26126, 22825, 8221, 65289, 65292, 35831, 21153, 24517, 26681, 25454,
      12304, 31995, 32479, 26102, 38388, 12305, 36827, 34892, 25512, 31639, 12290]"

text \<open>
  \<open>RAGAgent._to_messages\<close>. The base class is not part of these sources: the messages
  that \<open>super()._to_messages\<close> built and the text that \<open>_to_text_prompt\<close> returned
  are arguments, and so is the date line that lines 72 to 74 format from the clock.
\<close>

definition to_messages ::
  "vector_store option \<Rightarrow> message list \<Rightarrow> ustring \<Rightarrow> ustring \<Rightarrow> py_error + message list" where
  "to_messages vector_store messages user_text date_info =
     (if user_text \<noteq> [] \<and> vector_store \<noteq> None then
        (case retrieve_context vector_store user_text 3 of
           Inl err \<Rightarrow> Inl err
         | Inr context \<Rightarrow>
             if context \<noteq> [] \<and> messages \<noteq> [] \<and> role (last messages) = u ''user'' then
               (let new = augmented_content date_info context user_text in
                case content (last messages) of
                  Text original \<Rightarrow> Inr (butlast messages @ [(last messages)\<lparr>content := Text new\<rparr>])
                | Parts items \<Rightarrow>
                    Inr (butlast messages @
                         [(last messages)\<lparr>content := Parts (set_first_text new items)\<rparr>])
                | Other_Content \<Rightarrow> Inr messages)
             else Inr messages)
      else Inr messages)"

text \<open>
  The retrieval collaborator is unavailable for a query: the store did not load, or the
  search raises, or it returns no documents.
\<close>

definition unavailable :: "vector_store option \<Rightarrow> ustring \<Rightarrow> nat \<Rightarrow> bool" where
  "unavailable store query k =
     (case store of
        None \<Rightarrow> True
      | Some vs \<Rightarrow> vs query k = Search_Raises \<or> vs query k = Search_Returns [])"

section \<open>Evaluation on literals\<close>

lemma u_simps [simp]: "u [] = []" "u (c # s) = of_char c # u s"
  by (simp_all add: u_def)

section \<open>The URL pattern and its removal\<close>


lemma strip_prefix_iff: "strip_prefix p s = Some r \<longleftrightarrow> s = p @ r"
  by (induction p s rule: strip_prefix.induct) auto

lemma match_tail_iff:
  "match_tail s = Some rest \<longleftrightarrow>
     (\<exists>x q. s = u ''://'' @ x # q \<and> \<not> is_space x \<and> rest = dropWhile (\<lambda>c. \<not> is_space c) q)"
  apply (cases "strip_prefix (u ''://'') s")
   apply (simp_all add: match_tail_def strip_prefix_iff)
  subgoal using strip_prefix_iff[of "u ''://''" s] by auto
  subgoal for q by (cases q) auto
  done

lemma match_tail_None: "match_tail (115 # r) = None"
  by (simp add: match_tail_def)

lemma match_url_iff:
  "match_url s = Some rest \<longleftrightarrow>
     (\<exists>x q. (s = u ''http://'' @ x # q \<or> s = u ''https://'' @ x # q) \<and> \<not> is_space x \<and>
        rest = dropWhile (\<lambda>c. \<not> is_space c) q)"
proof -
  have a: "match_url s = Some rest \<longleftrightarrow>
    (\<exists>r. s = u ''http'' @ r \<and> ((\<exists>r'. r = 115 # r' \<and> match_tail r' = Some rest) \<or> match_tail r = Some rest))"
    apply (cases "strip_prefix (u ''http'') s")
    subgoal using strip_prefix_iff[of "u ''http''" s] by (auto simp: match_url_def)
    subgoal for r
      apply (cases "strip_prefix (u ''s'') r")
      subgoal using strip_prefix_iff[of "u ''s''" r] strip_prefix_iff[of "u ''http''" s r]
        by (auto simp: match_url_def)
      subgoal for r' using strip_prefix_iff[of "u ''s''" r r'] strip_prefix_iff[of "u ''http''" s r]
        by (auto simp: match_url_def match_tail_None split: option.splits)
      done
    done
  show ?thesis unfolding a match_tail_iff by auto
qed


lemma match_url_starts: "match_url s \<noteq> None \<longleftrightarrow> starts_url s"
  using match_url_iff[of s] unfolding starts_url_def by auto

lemma match_url_rest: "match_url s = Some rest \<Longrightarrow> rest = [] \<or> is_space (hd rest)"
proof -
  assume "match_url s = Some rest"
  then obtain q where r: "rest = dropWhile (\<lambda>c. \<not> is_space c) q"
    unfolding match_url_iff by blast
  show ?thesis unfolding r
    using hd_dropWhile [of "\<lambda>c. \<not> is_space c" q] by blast
qed

lemma starts_url_nonspace: "starts_url s \<Longrightarrow> s \<noteq> [] \<and> \<not> is_space (hd s)"
proof -
  assume "starts_url s"
  then obtain x q where "s = u ''http://'' @ x # q \<or> s = u ''https://'' @ x # q"
    unfolding starts_url_def by blast
  then have "s \<noteq> [] \<and> hd s = 104" by auto
  moreover have "\<not> is_space 104" by (simp add: is_space_def)
  ultimately show ?thesis by simp
qed

lemma url_literals_nonspace:
  "\<forall>c\<in>set (u ''http://''). \<not> is_space c" "\<forall>c\<in>set (u ''https://''). \<not> is_space c"
  by (simp_all add: is_space_def)

lemma starts_url_run: "starts_url s \<longleftrightarrow> starts_url (takeWhile (\<lambda>c. \<not> is_space c) s)"
proof
  assume "starts_url s"
  then obtain p x q where s: "s = p @ x # q" and p: "p = u ''http://'' \<or> p = u ''https://''"
    and x: "\<not> is_space x" unfolding starts_url_def by blast
  have "\<forall>c\<in>set p. \<not> is_space c" using p url_literals_nonspace by blast
  then have "takeWhile (\<lambda>c. \<not> is_space c) s = p @ x # takeWhile (\<lambda>c. \<not> is_space c) q"
    using s x by (simp add: takeWhile_append2)
  then show "starts_url (takeWhile (\<lambda>c. \<not> is_space c) s)"
    using p x unfolding starts_url_def by blast
next
  let ?R = "takeWhile (\<lambda>c. \<not> is_space c) s" and ?D = "dropWhile (\<lambda>c. \<not> is_space c) s"
  assume "starts_url ?R"
  then obtain p x q where r: "?R = p @ x # q" and p: "p = u ''http://'' \<or> p = u ''https://''"
    and x: "\<not> is_space x" unfolding starts_url_def by blast
  have "?R @ ?D = (p @ x # q) @ ?D" using r by (rule arg_cong)
  then have "s = p @ x # (q @ ?D)" by simp
  then show "starts_url s" using p x unfolding starts_url_def by blast
qed

lemma starts_url_prefix: "prefix p q \<Longrightarrow> starts_url p \<Longrightarrow> starts_url q"
  unfolding starts_url_def prefix_def by auto

lemma remove_urls_run:
  "prefix (takeWhile (\<lambda>c. \<not> is_space c) (remove_urls s)) (takeWhile (\<lambda>c. \<not> is_space c) s)"
proof (induction s rule: remove_urls.induct)
  case 1
  then show ?case by simp
next
  case (2 c cs)
  show ?case
  proof (cases "match_url (c # cs)")
    case None
    with 2 show ?thesis by simp
  next
    case (Some rest)
    have "takeWhile (\<lambda>c. \<not> is_space c) (remove_urls rest) = []"
    proof (cases rest)
      case Nil
      then show ?thesis by simp
    next
      case (Cons w r)
      with match_url_rest[OF Some] have w: "is_space w" by simp
      then have "match_url (w # r) = None"
        using match_url_starts[of "w # r"] starts_url_nonspace[of "w # r"] by auto
      then show ?thesis using Cons w by simp
    qed
    then show ?thesis using Some by simp
  qed
qed

lemma remove_urls_no_url: "\<not> url_search (remove_urls s)"
proof (induction s rule: remove_urls.induct)
  case 1
  then show ?case by simp
next
  case (2 c cs)
  show ?case
  proof (cases "match_url (c # cs)")
    case (Some rest)
    with 2 show ?thesis by simp
  next
    case None
    have "\<not> starts_url (c # remove_urls cs)"
    proof
      assume a: "starts_url (c # remove_urls cs)"
      then have c: "\<not> is_space c" using starts_url_nonspace by fastforce
      from a have "starts_url (takeWhile (\<lambda>c. \<not> is_space c) (c # remove_urls cs))"
        using starts_url_run by blast
      then have "starts_url (c # takeWhile (\<lambda>c. \<not> is_space c) (remove_urls cs))" using c by simp
      moreover have "prefix (c # takeWhile (\<lambda>c. \<not> is_space c) (remove_urls cs)) (takeWhile (\<lambda>c. \<not> is_space c) (c # cs))"
        using c remove_urls_run[of cs] by simp
      ultimately have "starts_url (takeWhile (\<lambda>c. \<not> is_space c) (c # cs))"
        using starts_url_prefix by blast
      then have "starts_url (c # cs)" using starts_url_run by blast
      then show False using None match_url_starts by blast
    qed
    then have "match_url (c # remove_urls cs) = None" using match_url_starts by blast
    then show ?thesis using None 2 by simp
  qed
qed

lemma remove_urls_id: "\<not> url_search s \<Longrightarrow> remove_urls s = s"
  by (induction s) auto

lemma remove_urls_subseq: "subseq (remove_urls s) s"
proof (induction s rule: remove_urls.induct)
  case 1
  then show ?case by simp
next
  case (2 c cs)
  show ?case
  proof (cases "match_url (c # cs)")
    case None
    with 2 show ?thesis by simp
  next
    case (Some rest)
    then obtain pre x q where "c # cs = pre @ x # q" and "rest = dropWhile (\<lambda>c. \<not> is_space c) q"
      unfolding match_url_iff by blast
    then have "c # cs = (pre @ x # takeWhile (\<lambda>c. \<not> is_space c) q) @ rest" by simp
    then have "suffix rest (c # cs)" unfolding suffix_def by blast
    then have "subseq rest (c # cs)" by (rule suffix_imp_subseq)
    moreover have "subseq (remove_urls rest) rest" using 2 Some by simp
    ultimately have "subseq (remove_urls rest) (c # cs)" using subseq_order.trans by blast
    then show ?thesis using Some by simp
  qed
qed

section \<open>The bracket scan\<close>


lemma scan_chars_append:
  "scan_chars b (xs @ ys) =
     (let (b1, o1) = scan_chars b xs; (b2, o2) = scan_chars b1 ys in (b2, o1 @ o2))"
  by (induction b xs rule: scan_chars.induct) (auto split: prod.splits)

lemma is_open_not_close: "is_open c \<Longrightarrow> \<not> is_close c"
  by (auto simp: is_open_def is_close_def)

lemma scan_chars_snoc:
  "scan_chars b (xs @ [c]) =
     (if is_open c then (True, snd (scan_chars b xs))
      else if is_close c then (False, snd (scan_chars b xs))
      else if fst (scan_chars b xs) then scan_chars b xs
      else (False, snd (scan_chars b xs) @ [c]))"
  by (auto simp: scan_chars_append split: prod.splits)

lemma in_bracket_span_snoc:
  "i \<le> length xs \<Longrightarrow> in_bracket_span (xs @ [c]) i = in_bracket_span xs i"
  unfolding in_bracket_span_def by (auto simp: nth_append)

lemma in_bracket_span_Suc:
  "in_bracket_span x (Suc i) \<longleftrightarrow> is_open (x ! i) \<or> (\<not> is_close (x ! i) \<and> in_bracket_span x i)"
proof
  assume "in_bracket_span x (Suc i)"
  then obtain j where j: "j < Suc i" "is_open (x ! j)"
    and nc: "\<forall>k. j < k \<and> k < Suc i \<longrightarrow> \<not> is_close (x ! k)"
    unfolding in_bracket_span_def by blast
  show "is_open (x ! i) \<or> (\<not> is_close (x ! i) \<and> in_bracket_span x i)"
  proof (cases "j = i")
    case True
    then show ?thesis using j by simp
  next
    case False
    then have ji: "j < i" using j by simp
    then have "\<not> is_close (x ! i)" using nc by simp
    moreover have "\<forall>k. j < k \<and> k < i \<longrightarrow> \<not> is_close (x ! k)" using nc by simp
    then have "in_bracket_span x i" unfolding in_bracket_span_def using ji j(2) by blast
    ultimately show ?thesis by simp
  qed
next
  assume "is_open (x ! i) \<or> (\<not> is_close (x ! i) \<and> in_bracket_span x i)"
  then show "in_bracket_span x (Suc i)"
  proof
    assume o: "is_open (x ! i)"
    have "i < Suc i \<and> is_open (x ! i) \<and> (\<forall>k. i < k \<and> k < Suc i \<longrightarrow> \<not> is_close (x ! k))"
      using o by (auto simp: less_Suc_eq)
    then show ?thesis unfolding in_bracket_span_def by blast
  next
    assume a: "\<not> is_close (x ! i) \<and> in_bracket_span x i"
    then obtain j where j: "j < i" "is_open (x ! j)"
      and nc: "\<forall>k. j < k \<and> k < i \<longrightarrow> \<not> is_close (x ! k)"
      unfolding in_bracket_span_def by blast
    have "\<forall>k. j < k \<and> k < Suc i \<longrightarrow> \<not> is_close (x ! k)"
      using nc a by (auto simp: less_Suc_eq)
    moreover have "j < Suc i" using j by simp
    ultimately show ?thesis unfolding in_bracket_span_def using j(2) by blast
  qed
qed

lemma scan_state: "fst (scan_chars False x) = in_bracket_span x (length x)"
proof (induction x rule: rev_induct)
  case Nil
  then show ?case by (simp add: in_bracket_span_def)
next
  case (snoc c xs)
  have "in_bracket_span (xs @ [c]) (Suc (length xs)) \<longleftrightarrow>
      is_open c \<or> (\<not> is_close c \<and> in_bracket_span xs (length xs))"
    by (simp add: in_bracket_span_Suc in_bracket_span_snoc)
  then show ?case using snoc by (auto simp: scan_chars_snoc is_open_not_close)
qed

lemma speakable_snoc: "i < length xs \<Longrightarrow> speakable (xs @ [c]) i = speakable xs i"
  by (simp add: speakable_def in_bracket_span_snoc nth_append)

lemma scan_speakable: "snd (scan_chars False x) = speakable_text x"
proof (induction x rule: rev_induct)
  case Nil
  then show ?case by (simp add: speakable_text_def)
next
  case (snoc c xs)
  have f: "filter (speakable (xs @ [c])) [0..<length xs] = filter (speakable xs) [0..<length xs]"
    by (rule filter_cong) (simp_all add: speakable_snoc)
  have m: "map (\<lambda>i. (xs @ [c]) ! i) (filter (speakable xs) [0..<length xs])
         = map (\<lambda>i. xs ! i) (filter (speakable xs) [0..<length xs])"
    by (rule map_cong) (auto simp: nth_append)
  have l: "speakable (xs @ [c]) (length xs) \<longleftrightarrow>
       \<not> is_open c \<and> \<not> is_close c \<and> \<not> fst (scan_chars False xs)"
    by (simp add: speakable_def in_bracket_span_snoc scan_state)
  have "speakable_text (xs @ [c]) =
      speakable_text xs @ (if speakable (xs @ [c]) (length xs) then [c] else [])"
    by (simp add: speakable_text_def f m)
  then show ?case using snoc l by (auto simp: scan_chars_snoc)
qed

lemma filter_step:
  "filter_stream_text st (Some t) =
     (if t = [] then st else Some (fst (scan_chars (st = Some True) t)),
      Some (remove_urls (snd (scan_chars (st = Some True) t))))"
  by (cases st) (auto simp: filter_stream_text_def split: prod.splits)

lemma filter_step_state:
  "(fst (filter_stream_text st (Some t)) = Some True) = fst (scan_chars (st = Some True) t)"
  by (cases t) (simp_all add: filter_step)

lemma filter_session_scan:
  "subseq (concat (map text_of (snd (filter_session st ts))))
          (snd (scan_chars (st = Some True) (concat ts)))"
proof (induction ts arbitrary: st)
  case Nil
  then show ?case by simp
next
  case (Cons t ts)
  let ?st1 = "fst (filter_stream_text st (Some t))"
  have 1: "subseq (remove_urls (snd (scan_chars (st = Some True) t))) (snd (scan_chars (st = Some True) t))"
    by (rule remove_urls_subseq)
  have 2: "subseq (concat (map text_of (snd (filter_session ?st1 ts))))
          (snd (scan_chars (fst (scan_chars (st = Some True) t)) (concat ts)))"
    using Cons [of ?st1] by (simp only: filter_step_state)
  have "snd (filter_session st (t # ts)) =
      Some (remove_urls (snd (scan_chars (st = Some True) t))) # snd (filter_session ?st1 ts)"
    by (simp add: filter_step split: prod.splits)
  moreover have "snd (scan_chars (st = Some True) (concat (t # ts))) =
      snd (scan_chars (st = Some True) t) @ snd (scan_chars (fst (scan_chars (st = Some True) t)) (concat ts))"
    by (simp add: scan_chars_append split: prod.splits)
  ultimately show ?case using 1 2 by (simp add: list_emb_append_mono)
qed

lemma filter_session_no_url:
  "\<forall>out\<in>set (snd (filter_session st ts)). \<exists>r. out = Some r \<and> \<not> url_search r"
proof (induction ts arbitrary: st)
  case Nil
  then show ?case by simp
next
  case (Cons t ts)
  show ?case using Cons [of "fst (filter_stream_text st (Some t))"]
    by (simp add: filter_step remove_urls_no_url split: prod.splits)
qed

lemma scan_chars_suppressed:
  "\<forall>c\<in>set t. \<not> is_close c \<Longrightarrow> scan_chars True t = (True, [])"
  by (induction t) auto

lemma scan_chars_plain:
  "\<forall>c\<in>set t. \<not> is_open c \<and> \<not> is_close c \<Longrightarrow> scan_chars False t = (False, t)"
  by (induction t) auto

section \<open>The stream text filter: claims\<close>

text \<open>
  C1, as amended: for every sequence of fragments of a fresh session, the returned
  fragments, concatenated, are a subsequence of the speakable characters of the
  concatenated input (those that are no bracket and have no opening bracket before them
  that is not yet followed by a closing bracket), and no single returned fragment holds
  a match of \<open>https?://\S+\<close>.
\<close>

theorem session_output_speakable:
  "subseq (concat (map text_of (snd (filter_session None ts)))) (speakable_text (concat ts)) \<and>
   (\<forall>out\<in>set (snd (filter_session None ts)). \<exists>r. out = Some r \<and> \<not> url_search r)"
  using filter_session_scan [of None ts] filter_session_no_url [of None ts]
  by (simp add: scan_speakable)

theorem session_output_speakable_witness:
  "subseq (concat (map text_of (snd (filter_session None [u ''A(B'', u ''C)D http://x.y z'']))))
     (speakable_text (concat [u ''A(B'', u ''C)D http://x.y z''])) \<and>
   speakable_text (concat [u ''A(B'', u ''C)D http://x.y z'']) = u ''AD http://x.y z'' \<and>
   snd (filter_session None [u ''A(B'', u ''C)D http://x.y z'']) =
     [Some (u ''A''), Some (u ''D  z'')] \<and>
   \<not> url_search (u ''A'') \<and> \<not> url_search (u ''D  z'')"
proof -
  have k: "speakable_text (concat [u ''A(B'', u ''C)D http://x.y z'']) = u ''AD http://x.y z''"
    unfolding scan_speakable [symmetric] by (simp add: is_open_def is_close_def)
  let ?F = "[u ''A(B'', u ''C)D http://x.y z'']"
  have e: "snd (filter_session None ?F) = [Some (u ''A''), Some (u ''D  z'')]"
    by (simp add: filter_stream_text_def is_open_def is_close_def match_url_def match_tail_def
        is_space_def)
  have t: "subseq (concat (map text_of (snd (filter_session None ?F)))) (speakable_text (concat ?F)) \<and>
      (\<forall>out\<in>set (snd (filter_session None ?F)). \<exists>r. out = Some r \<and> \<not> url_search r)"
    by (rule session_output_speakable)
  from t have a: "subseq (concat (map text_of (snd (filter_session None ?F)))) (speakable_text (concat ?F))"
    by (rule conjunct1)
  from t have "\<forall>out\<in>set [Some (u ''A''), Some (u ''D  z'')]. \<exists>r. out = Some r \<and> \<not> url_search r"
    unfolding e by (rule conjunct2)
  then have b: "\<not> url_search (u ''A'') \<and> \<not> url_search (u ''D  z'')"
    by (simp del: u_simps url_search.simps)
  show ?thesis using a k e b by blast
qed

text \<open>
  C1 as stated fails. A URL split over two fragments is returned whole; a URL of another
  scheme is returned; and with nested brackets the first closing bracket ends the
  suppression, so \<open>c\<close> of \<open>"(a(b)c)"\<close>, at nesting depth one, is returned.
\<close>

theorem session_output_counterexample:
  "url_search (concat (map text_of (snd (filter_session None [u ''http://'', u ''x.com''])))) \<and>
   filter_stream_text None (Some (u ''ftp://x.y'')) = (Some False, Some (u ''ftp://x.y'')) \<and>
   nesting_depth 0 (take 5 (u ''(a(b)c)'')) = 1 \<and> u ''(a(b)c)'' ! 5 = 99 \<and>
   filter_stream_text None (Some (u ''(a(b)c)'')) = (Some False, Some [99])"
  by (simp add: filter_stream_text_def is_open_def is_close_def match_url_def match_tail_def
      is_space_def)

text \<open>
  C2: on a fresh session, filtering \<open>"A(B"\<close> and then \<open>"C)D"\<close> returns \<open>"A"\<close>
  and then \<open>"D"\<close>: the opening bracket of the first fragment suppresses \<open>"C"\<close> of
  the second one.
\<close>

theorem filter_across_boundary:
  "filter_stream_text None (Some (u ''A(B'')) = (Some True, Some (u ''A'')) \<and>
   filter_stream_text (Some True) (Some (u ''C)D'')) = (Some False, Some (u ''D''))"
  by (simp add: filter_stream_text_def is_open_def is_close_def match_url_def)

text \<open>
  C3, as amended: in the Speaking state a closing bracket is dropped and the filter
  stays in the Speaking state.
\<close>

theorem closing_bracket_when_speaking:
  "is_close c \<Longrightarrow>
     scan_chars False (c # cs) = scan_chars False cs \<and>
     filter_stream_text (Some False) (Some [c]) = (Some False, Some [])"
  by (auto simp: filter_stream_text_def is_open_def is_close_def)

theorem closing_bracket_when_speaking_witness:
  "is_close 41 \<and> scan_chars False (41 # u ''ab'') = scan_chars False (u ''ab'') \<and>
   filter_stream_text (Some False) (Some [41]) = (Some False, Some [])"
  using closing_bracket_when_speaking [of 41 "u ''ab''"] by (simp add: is_close_def)

text \<open>
  C3 as stated fails: after a closing bracket scanned in the Speaking state the filter
  is not in the Suppressing state, for either closing bracket.
\<close>

theorem closing_bracket_counterexample:
  "fst (filter_stream_text (Some False) (Some (u '')''))) \<noteq> Some True \<and>
   fst (filter_stream_text (Some False) (Some [65289])) \<noteq> Some True"
  by (simp add: filter_stream_text_def is_open_def is_close_def)

text \<open>
  C4, as amended: the filter returns a value for every input; the empty string is
  returned as the empty string and an absent text as the absent text, both without
  touching the state; every other string gives a string.
\<close>

theorem filter_total:
  "filter_stream_text st None = (st, None) \<and>
   filter_stream_text st (Some []) = (st, Some []) \<and>
   (\<exists>st' r. filter_stream_text st (Some t) = (st', Some r))"
  by (simp add: filter_step) (simp add: filter_stream_text_def)

text \<open>C4 as stated fails: for an absent text the filter does not return the empty string.\<close>

theorem filter_none_counterexample:
  "snd (filter_stream_text None None) \<noteq> Some []"
  by (simp add: filter_stream_text_def)

text \<open>
  C5: the fragment \<open>"A(B"\<close> on a fresh session returns \<open>"A"\<close> and leaves the
  filter suppressing; from then on every sequence of fragments that hold no closing
  bracket is answered with empty strings only, and the filter stays suppressing.
\<close>

theorem unmatched_open_fails_closed:
  assumes "\<forall>t\<in>set ts. \<forall>c\<in>set t. \<not> is_close c"
  shows "filter_stream_text None (Some (u ''A(B'')) = (Some True, Some (u ''A'')) \<and>
         filter_session (Some True) ts = (Some True, map (\<lambda>t. Some []) ts)"
proof
  show "filter_stream_text None (Some (u ''A(B'')) = (Some True, Some (u ''A''))"
    by (simp add: filter_stream_text_def is_open_def is_close_def match_url_def)
  show "filter_session (Some True) ts = (Some True, map (\<lambda>t. Some []) ts)"
    using assms by (induction ts) (simp_all add: filter_step scan_chars_suppressed)
qed

theorem unmatched_open_fails_closed_witness:
  "list_all (list_all (\<lambda>c. \<not> is_close c)) [u ''BC'', u ''D E''] \<and>
   filter_session (Some True) [u ''BC'', u ''D E''] = (Some True, [Some [], Some []])"
  using unmatched_open_fails_closed [of "[u ''BC'', u ''D E'']"]
  by (simp add: is_close_def)

text \<open>
  C7, as amended: a string without brackets and without a match of the URL pattern is
  returned unchanged when the session is not suppressing (the flag is absent or false),
  and the session is not suppressing afterwards.
\<close>

theorem filter_idempotent_when_speaking:
  assumes "st \<noteq> Some True"
    and "\<forall>c\<in>set t. \<not> is_open c \<and> \<not> is_close c"
    and "\<not> url_search t"
  shows "snd (filter_stream_text st (Some t)) = Some t \<and>
         fst (filter_stream_text st (Some t)) \<noteq> Some True"
  using assms by (cases t) (simp_all add: filter_step scan_chars_plain remove_urls_id del: remove_urls.simps url_search.simps)

theorem filter_idempotent_when_speaking_witness:
  "None \<noteq> Some True \<and> list_all (\<lambda>c. \<not> is_open c \<and> \<not> is_close c) (u ''hi you'') \<and>
   \<not> url_search (u ''hi you'') \<and>
   snd (filter_stream_text None (Some (u ''hi you''))) = Some (u ''hi you'')"
proof -
  have a: "\<forall>c\<in>set (u ''hi you''). \<not> is_open c \<and> \<not> is_close c"
    by (simp add: is_open_def is_close_def)
  have b: "\<not> url_search (u ''hi you'')"
    by (simp add: match_url_def)
  show ?thesis using filter_idempotent_when_speaking [of None "u ''hi you''", OF _ a b] a b
    by (simp add: list_all_iff)
qed

text \<open>
  C7 as stated fails on a suppressing session: after \<open>"A(B"\<close> has returned
  \<open>"A"\<close>, filtering the already filtered \<open>"A"\<close> on the same session does not
  return it.
\<close>

theorem filter_idempotent_counterexample:
  "list_all (\<lambda>c. \<not> is_open c \<and> \<not> is_close c) (u ''A'') \<and> \<not> url_search (u ''A'') \<and>
   fst (filter_stream_text None (Some (u ''A(B''))) = Some True \<and>
   snd (filter_stream_text (Some True) (Some (u ''A''))) \<noteq> Some (u ''A'')"
  by (simp add: filter_stream_text_def is_open_def is_close_def match_url_def)

section \<open>The dispatcher and the backend: lemmas\<close>


lemma strip_empty_iff: "strip s = [] \<longleftrightarrow> (\<forall>c\<in>set s. is_space c)"
proof
  assume a: "strip s = []"
  then have "dropWhile is_space (rev (dropWhile is_space s)) = []" by (simp add: strip_def)
  then have "\<forall>c\<in>set (dropWhile is_space s). is_space c" by (simp add: dropWhile_eq_Nil_conv)
  moreover have "dropWhile is_space s \<noteq> [] \<Longrightarrow> \<not> is_space (hd (dropWhile is_space s))"
    by (rule hd_dropWhile)
  ultimately have "dropWhile is_space s = []" using hd_in_set by blast
  then show "\<forall>c\<in>set s. is_space c" by (simp add: dropWhile_eq_Nil_conv)
next
  assume "\<forall>c\<in>set s. is_space c"
  then have "dropWhile is_space s = []" by (induction s) simp_all
  then show "strip s = []" unfolding strip_def by (simp only: rev.simps dropWhile.simps)
qed

lemma remove_pair_subseq: "subseq (remove_pair a b s) s"
  by (induction a b s rule: remove_pair.induct) auto

lemma clean_text_subseq: "subseq (clean_text t) t"
  unfolding clean_text_def
  by (intro subseq_order.trans [OF remove_pair_subseq] remove_urls_subseq)

lemma subseq_set: "subseq xs ys \<Longrightarrow> set xs \<subseteq> set ys"
  by (induction rule: list_emb.induct) auto

lemma clean_text_blank: "strip t = [] \<Longrightarrow> strip (clean_text t) = []"
  unfolding strip_empty_iff using subseq_set [OF clean_text_subseq, of t] by blast

lemma async_generate_audio_result:
  "filter_stream_text st text = (st', safe) \<Longrightarrow>
   async_generate_audio generate st text f =
     (st', fst (generate safe f), Generate_Audio_Called safe # snd (generate safe f))"
  by (simp add: async_generate_audio_def split: prod.splits)


lemma only_link_content:
  "filter_stream_text None (Some (u ''(only link content)'')) = (Some False, Some [])"
  by (simp add: filter_stream_text_def is_open_def is_close_def)


lemma example_cache_file:
  "fst (generate_cache_file_name (example_env answer full) None (response_format example_tts)) =
     Inr (u ''cache/temp.mp3'')"
  by (simp add: generate_cache_file_name_def example_env_def posix_join_def example_tts_def)

lemma remove_pair_head:
  assumes "remove_pair a b z = b # r" and "a \<noteq> b"
  shows "(\<exists>z'. z = b # z') \<or> (\<exists>z'. z = a # b # z')"
proof (cases z)
  case Nil
  with assms show ?thesis by simp
next
  case (Cons x xs)
  show ?thesis
  proof (cases xs)
    case Nil
    with Cons assms show ?thesis by simp
  next
    case (Cons y ys)
    with \<open>z = x # xs\<close> assms show ?thesis by (auto split: if_splits)
  qed
qed

lemma prefix_pair: "prefix [a, b] s \<longleftrightarrow> (\<exists>r. s = a # b # r)"
  by (auto simp: prefix_def)

lemma remove_pair_nested:
  "a \<noteq> b \<Longrightarrow> sublist [a, b] (remove_pair a b s) \<Longrightarrow> sublist [a, a, b] s"
proof (induction a b s rule: remove_pair.induct)
  case (1 a b x y xs)
  show ?case
  proof (cases "x = a \<and> y = b")
    case True
    with 1 show ?thesis by (simp add: sublist_Cons_right)
  next
    case False
    with 1(4) have "(x = a \<and> (\<exists>r. remove_pair a b (y # xs) = b # r)) \<or>
        sublist [a, b] (remove_pair a b (y # xs))"
      by (auto simp: sublist_Cons_right prefix_def)
    then show ?thesis
    proof
      assume "x = a \<and> (\<exists>r. remove_pair a b (y # xs) = b # r)"
      then obtain r where xa: "x = a" and r: "remove_pair a b (y # xs) = b # r"
        by blast
      from remove_pair_head [OF r 1(3)] False xa obtain z' where "y # xs = a # b # z'"
        by auto
      then have "prefix [a, a, b] (x # y # xs)" using xa by (simp add: prefix_def)
      then show ?thesis by (simp add: sublist_Cons_right)
    next
      assume "sublist [a, b] (remove_pair a b (y # xs))"
      with 1 False have "sublist [a, a, b] (y # xs)" by simp
      then show ?thesis by (simp add: sublist_Cons_right)
    qed
  qed
qed (simp_all add: sublist_Cons_right prefix_def)

lemma remove_pair_id: "\<not> sublist [a, b] s \<Longrightarrow> remove_pair a b s = s"
  by (induction a b s rule: remove_pair.induct) (auto simp: sublist_Cons_right prefix_def)

lemma posted_inputs_append: "posted_inputs (xs @ ys) = posted_inputs xs @ posted_inputs ys"
  by (induction xs rule: posted_inputs.induct) simp_all

lemma try_request_inputs:
  "set (posted_inputs (snd (try_request self e pl cache_file))) \<subseteq> {p_input pl}"
  by (auto simp: try_request_def Let_def split: option.splits http_outcome.splits)

lemma generate_cache_file_name_inputs:
  "posted_inputs (snd (generate_cache_file_name e f ext)) = []"
  by (simp add: generate_cache_file_name_def Let_def)

lemma generate_audio_inputs:
  "set (posted_inputs (snd (generate_audio self e (Some t) f))) \<subseteq> {clean_text t}"
proof (cases "generate_cache_file_name e f (response_format self)")
  case (Pair r evs)
  then have evs: "posted_inputs evs = []"
    using generate_cache_file_name_inputs [of e f "response_format self"] by simp
  show ?thesis
  proof (cases r)
    case (Inl err)
    with Pair evs show ?thesis by (simp add: generate_audio_def Let_def)
  next
    case (Inr cache_file)
    obtain r' evs' where t:
      "try_request self e (build_payload self (clean_text t)) cache_file = (r', evs')"
      by (cases "try_request self e (build_payload self (clean_text t)) cache_file")
    have "set (posted_inputs evs') \<subseteq> {clean_text t}"
      using try_request_inputs [of self e "build_payload self (clean_text t)" cache_file] t
      by (simp add: build_payload_def)
    with Pair Inr evs t show ?thesis
      by (cases r') (simp_all add: generate_audio_def Let_def posted_inputs_append)
  qed
qed

lemma retrieve_context_total: "\<exists>c. retrieve_context store query k = Inr c"
  by (simp add: retrieve_context_def split: option.splits sum.splits)

subsection \<open>What one pass of pair removal can bring together\<close>

lemma remove_pair_step:
  "\<not> prefix [a, b] z \<Longrightarrow> remove_pair a b z = (case z of [] \<Rightarrow> [] | q # z1 \<Rightarrow> q # remove_pair a b z1)"
proof (cases z)
  case Nil
  then show ?thesis by simp
next
  case (Cons x xs)
  assume n: "\<not> prefix [a, b] z"
  show ?thesis
  proof (cases xs)
    case Nil
    with Cons show ?thesis by simp
  next
    case (Cons y ys)
    with \<open>z = x # xs\<close> n show ?thesis by auto
  qed
qed

lemma sublist_ConsI: "sublist w z \<Longrightarrow> sublist w (x # z)"
  by (simp add: sublist_Cons_right)

lemma remove_pair_prefix:
  "prefix w (remove_pair a b z) \<Longrightarrow>
   \<forall>p\<in>set (butlast (x # w)). \<not> sublist [p, a, b] (x # z) \<Longrightarrow> prefix w z"
proof (induction w arbitrary: x z)
  case Nil
  then show ?case by simp
next
  case (Cons q w)
  from Cons.prems(2) have "\<not> sublist [x, a, b] (x # z)" by simp
  then have nab: "\<not> prefix [a, b] z" by (auto simp: sublist_Cons_right)
  have rp: "remove_pair a b z = (case z of [] \<Rightarrow> [] | q # z1 \<Rightarrow> q # remove_pair a b z1)"
    by (rule remove_pair_step [OF nab])
  from Cons.prems(1) rp obtain z1 where z: "z = q # z1" and p: "prefix w (remove_pair a b z1)"
    by (cases z) auto
  have "\<forall>p\<in>set (butlast (q # w)). \<not> sublist [p, a, b] (q # z1)"
  proof
    fix p assume "p \<in> set (butlast (q # w))"
    then have m: "p \<in> set (butlast (x # q # w))" by simp
    have n: "\<not> sublist [p, a, b] (x # z)" by (rule bspec [OF Cons.prems(2) m])
    show "\<not> sublist [p, a, b] (q # z1)"
    proof
      assume "sublist [p, a, b] (q # z1)"
      then have "sublist [p, a, b] (x # z)" unfolding z by (rule sublist_ConsI)
      with n show False by simp
    qed
  qed
  from Cons.IH [OF p this] show ?case using z by simp
qed

lemma remove_pair_window:
  "sublist w (remove_pair a b s) \<Longrightarrow>
   \<forall>p\<in>set (butlast w). \<not> sublist [p, a, b] s \<Longrightarrow> sublist w s"
proof (induction a b s rule: remove_pair.induct)
  case (1 a b x y xs)
  show ?case
  proof (cases "x = a \<and> y = b")
    case True
    with 1(3) have "sublist w (remove_pair a b xs)" by simp
    moreover have "\<forall>p\<in>set (butlast w). \<not> sublist [p, a, b] xs"
    proof
      fix p assume m: "p \<in> set (butlast w)"
      have n: "\<not> sublist [p, a, b] (x # y # xs)" by (rule bspec [OF 1(4) m])
      show "\<not> sublist [p, a, b] xs"
      proof
        assume "sublist [p, a, b] xs"
        then have "sublist [p, a, b] (x # y # xs)" by (intro sublist_ConsI)
        with n show False by simp
      qed
    qed
    ultimately have "sublist w xs" using 1(1) True by simp
    then show ?thesis by (simp add: sublist_ConsI)
  next
    case False
    with 1(3) have "prefix w (x # remove_pair a b (y # xs)) \<or> sublist w (remove_pair a b (y # xs))"
      by (auto simp: sublist_Cons_right)
    then show ?thesis
    proof
      assume pw: "prefix w (x # remove_pair a b (y # xs))"
      show ?thesis
      proof (cases w)
        case Nil
        then show ?thesis by simp
      next
        case (Cons q w')
        with pw have qx: "q = x" and p': "prefix w' (remove_pair a b (y # xs))" by simp_all
        have "\<forall>p\<in>set (butlast (x # w')). \<not> sublist [p, a, b] (x # y # xs)"
          using 1(4) Cons qx by simp
        from remove_pair_prefix [OF p' this] have "prefix w (x # y # xs)" using Cons qx by simp
        then show ?thesis by (simp add: sublist_Cons_right)
      qed
    next
      assume "sublist w (remove_pair a b (y # xs))"
      moreover have "\<forall>p\<in>set (butlast w). \<not> sublist [p, a, b] (y # xs)"
      proof
        fix p assume m: "p \<in> set (butlast w)"
        have n: "\<not> sublist [p, a, b] (x # y # xs)" by (rule bspec [OF 1(4) m])
        show "\<not> sublist [p, a, b] (y # xs)"
        proof
          assume "sublist [p, a, b] (y # xs)"
          then have "sublist [p, a, b] (x # y # xs)" by (rule sublist_ConsI)
          with n show False by simp
        qed
      qed
      ultimately have "sublist w (y # xs)" using 1(2) False by simp
      then show ?thesis by (simp add: sublist_ConsI)
    qed
  qed
qed simp_all

lemma pair_after_iff: "pair_after x s \<longleftrightarrow> (\<exists>a b. four_pair a b \<and> sublist [x, a, b] s)"
  unfolding pair_after_def four_pair_def by blast

lemma sublist_hd_mem: "sublist (x # w) s \<Longrightarrow> x \<in> set s"
  using set_mono_sublist [of "x # w" s] by simp

lemma clear_of_iff: "clear_of g s \<longleftrightarrow> \<not> list_ex (\<lambda>x. g x \<and> pair_after x s) s"
proof
  assume c: "clear_of g s"
  show "\<not> list_ex (\<lambda>x. g x \<and> pair_after x s) s"
  proof
    assume "list_ex (\<lambda>x. g x \<and> pair_after x s) s"
    then obtain x where "g x" and "pair_after x s" unfolding list_ex_iff by blast
    then obtain a b where "four_pair a b" and "sublist [x, a, b] s" unfolding pair_after_iff by blast
    with c \<open>g x\<close> show False unfolding clear_of_def by blast
  qed
next
  assume n: "\<not> list_ex (\<lambda>x. g x \<and> pair_after x s) s"
  show "clear_of g s"
    unfolding clear_of_def
  proof (intro allI impI notI)
    fix x a b assume g: "g x \<and> four_pair a b" and s: "sublist [x, a, b] s"
    from s have "x \<in> set s" by (rule sublist_hd_mem)
    moreover from g s have "pair_after x s" unfolding pair_after_iff by blast
    ultimately have "list_ex (\<lambda>x. g x \<and> pair_after x s) s" using g unfolding list_ex_iff by blast
    with n show False by simp
  qed
qed

lemma four_pair_open: "four_pair a b \<Longrightarrow> is_pair_open a \<and> a \<noteq> b"
  unfolding four_pair_def is_pair_open_def by auto

lemma clear_window:
  assumes fp: "four_pair a b" and c: "clear_of g s"
    and w: "\<forall>p\<in>set (butlast w). g p" and sub: "sublist w (remove_pair a b s)"
  shows "sublist w s"
proof (rule remove_pair_window [OF sub])
  show "\<forall>p\<in>set (butlast w). \<not> sublist [p, a, b] s"
  proof
    fix p assume "p \<in> set (butlast w)"
    with w have "g p" by simp
    with c fp show "\<not> sublist [p, a, b] s" unfolding clear_of_def by blast
  qed
qed

lemma clear_pass:
  assumes fp: "four_pair a b" and j: "clear_of is_pair_open s" and c: "clear_of g s"
  shows "clear_of g (remove_pair a b s)"
  unfolding clear_of_def
proof (intro allI impI notI)
  fix x a' b' assume h: "g x \<and> four_pair a' b'" and sub: "sublist [x, a', b'] (remove_pair a b s)"
  have o: "is_pair_open a'" using h four_pair_open by blast
  have na: "\<not> sublist [x, a, b] s" using c fp h unfolding clear_of_def by blast
  have nb: "\<not> sublist [a', a, b] s" using j fp o unfolding clear_of_def by blast
  have "\<forall>p\<in>set (butlast [x, a', b']). \<not> sublist [p, a, b] s" using na nb by simp
  from remove_pair_window [OF sub this] have "sublist [x, a', b'] s" .
  with c h show False unfolding clear_of_def by blast
qed

lemma pair_gone:
  assumes fp: "four_pair a b" and j: "clear_of is_pair_open s"
  shows "\<not> sublist [a, b] (remove_pair a b s)"
proof
  assume "sublist [a, b] (remove_pair a b s)"
  moreover have ab: "is_pair_open a \<and> a \<noteq> b" by (rule four_pair_open [OF fp])
  ultimately have "sublist [a, a, b] s" using remove_pair_nested by blast
  with j fp ab show False unfolding clear_of_def by blast
qed

lemma pair_not_formed:
  assumes fp: "four_pair a b" and fp': "four_pair a' b'" and j: "clear_of is_pair_open s"
    and n: "\<not> sublist [a', b'] s"
  shows "\<not> sublist [a', b'] (remove_pair a b s)"
proof
  assume sub: "sublist [a', b'] (remove_pair a b s)"
  have "\<forall>p\<in>set (butlast [a', b']). is_pair_open p" using four_pair_open [OF fp'] by simp
  from clear_window [OF fp j this sub] n show False by simp
qed

lemma starts_url_prefix_iff:
  "starts_url s \<longleftrightarrow>
     (\<exists>x. \<not> is_space x \<and> (prefix (u ''http://'' @ [x]) s \<or> prefix (u ''https://'' @ [x]) s))"
proof
  assume "starts_url s"
  then obtain x q where "s = u ''http://'' @ x # q \<or> s = u ''https://'' @ x # q" and x: "\<not> is_space x"
    unfolding starts_url_def by blast
  then have "s = (u ''http://'' @ [x]) @ q \<or> s = (u ''https://'' @ [x]) @ q" by simp
  then have "prefix (u ''http://'' @ [x]) s \<or> prefix (u ''https://'' @ [x]) s"
    unfolding prefix_def by blast
  with x show "\<exists>x. \<not> is_space x \<and> (prefix (u ''http://'' @ [x]) s \<or> prefix (u ''https://'' @ [x]) s)"
    by blast
next
  assume "\<exists>x. \<not> is_space x \<and> (prefix (u ''http://'' @ [x]) s \<or> prefix (u ''https://'' @ [x]) s)"
  then obtain x where x: "\<not> is_space x"
    and p: "prefix (u ''http://'' @ [x]) s \<or> prefix (u ''https://'' @ [x]) s" by blast
  from p obtain q where "s = (u ''http://'' @ [x]) @ q \<or> s = (u ''https://'' @ [x]) @ q"
    unfolding prefix_def by blast
  then have "s = u ''http://'' @ x # q \<or> s = u ''https://'' @ x # q" by simp
  with x show "starts_url s" unfolding starts_url_def by blast
qed

lemma url_search_window:
  "url_search s \<longleftrightarrow>
     (\<exists>x. \<not> is_space x \<and> (sublist (u ''http://'' @ [x]) s \<or> sublist (u ''https://'' @ [x]) s))"
proof (induction s)
  case Nil
  then show ?case by simp
next
  case (Cons c cs)
  have "url_search (c # cs) \<longleftrightarrow> starts_url (c # cs) \<or> url_search cs"
    using match_url_starts [of "c # cs"] by simp
  also have "\<dots> \<longleftrightarrow>
     (\<exists>x. \<not> is_space x \<and> (prefix (u ''http://'' @ [x]) (c # cs) \<or> prefix (u ''https://'' @ [x]) (c # cs))) \<or>
     (\<exists>x. \<not> is_space x \<and> (sublist (u ''http://'' @ [x]) cs \<or> sublist (u ''https://'' @ [x]) cs))"
    unfolding Cons.IH starts_url_prefix_iff ..
  also have "\<dots> \<longleftrightarrow>
     (\<exists>x. \<not> is_space x \<and> (sublist (u ''http://'' @ [x]) (c # cs) \<or> sublist (u ''https://'' @ [x]) (c # cs)))"
    unfolding sublist_Cons_right [of _ c cs] by blast
  finally show ?case .
qed

lemma scheme_butlast:
  "\<forall>p\<in>set (butlast (u ''http://'' @ [x])). is_scheme_char p"
  "\<forall>p\<in>set (butlast (u ''https://'' @ [x])). is_scheme_char p"
  by (simp_all add: is_scheme_char_def)

lemma url_not_formed:
  assumes fp: "four_pair a b" and k: "clear_of is_scheme_char s" and n: "\<not> url_search s"
  shows "\<not> url_search (remove_pair a b s)"
proof
  assume "url_search (remove_pair a b s)"
  then obtain x where x: "\<not> is_space x"
    and w: "sublist (u ''http://'' @ [x]) (remove_pair a b s) \<or>
            sublist (u ''https://'' @ [x]) (remove_pair a b s)"
    unfolding url_search_window by blast
  from w have "sublist (u ''http://'' @ [x]) s \<or> sublist (u ''https://'' @ [x]) s"
  proof
    assume "sublist (u ''http://'' @ [x]) (remove_pair a b s)"
    from clear_window [OF fp k scheme_butlast(1) this] show ?thesis by (rule disjI1)
  next
    assume "sublist (u ''https://'' @ [x]) (remove_pair a b s)"
    from clear_window [OF fp k scheme_butlast(2) this] show ?thesis by (rule disjI2)
  qed
  with x have "url_search s" unfolding url_search_window by blast
  with n show False by simp
qed

lemma four_pairs:
  "four_pair 40 41" "four_pair 65288 65289" "four_pair 91 93" "four_pair 12304 12305"
  by (simp_all add: four_pair_def)

lemma clean_text_no_pair:
  assumes j: "clear_of is_pair_open (remove_urls t)"
  shows "\<not> has_empty_pair (clean_text t)"
proof -
  let ?s0 = "remove_urls t"
  let ?s1 = "remove_pair 40 41 ?s0"
  let ?s2 = "remove_pair 65288 65289 ?s1"
  let ?s3 = "remove_pair 91 93 ?s2"
  let ?s4 = "remove_pair 12304 12305 ?s3"
  have j1: "clear_of is_pair_open ?s1" by (rule clear_pass [OF four_pairs(1) j j])
  have j2: "clear_of is_pair_open ?s2" by (rule clear_pass [OF four_pairs(2) j1 j1])
  have j3: "clear_of is_pair_open ?s3" by (rule clear_pass [OF four_pairs(3) j2 j2])
  have a1: "\<not> sublist [40, 41] ?s1" by (rule pair_gone [OF four_pairs(1) j])
  have a2: "\<not> sublist [40, 41] ?s2" by (rule pair_not_formed [OF four_pairs(2) four_pairs(1) j1 a1])
  have a3: "\<not> sublist [40, 41] ?s3" by (rule pair_not_formed [OF four_pairs(3) four_pairs(1) j2 a2])
  have a4: "\<not> sublist [40, 41] ?s4" by (rule pair_not_formed [OF four_pairs(4) four_pairs(1) j3 a3])
  have b2: "\<not> sublist [65288, 65289] ?s2" by (rule pair_gone [OF four_pairs(2) j1])
  have b3: "\<not> sublist [65288, 65289] ?s3" by (rule pair_not_formed [OF four_pairs(3) four_pairs(2) j2 b2])
  have b4: "\<not> sublist [65288, 65289] ?s4" by (rule pair_not_formed [OF four_pairs(4) four_pairs(2) j3 b3])
  have c3: "\<not> sublist [91, 93] ?s3" by (rule pair_gone [OF four_pairs(3) j2])
  have c4: "\<not> sublist [91, 93] ?s4" by (rule pair_not_formed [OF four_pairs(4) four_pairs(3) j3 c3])
  have d4: "\<not> sublist [12304, 12305] ?s4" by (rule pair_gone [OF four_pairs(4) j3])
  show ?thesis unfolding has_empty_pair_def clean_text_def using a4 b4 c4 d4 by simp
qed

lemma clean_text_no_url:
  assumes j: "clear_of is_pair_open (remove_urls t)" and k: "clear_of is_scheme_char (remove_urls t)"
  shows "\<not> url_search (clean_text t)"
proof -
  let ?s0 = "remove_urls t"
  let ?s1 = "remove_pair 40 41 ?s0"
  let ?s2 = "remove_pair 65288 65289 ?s1"
  let ?s3 = "remove_pair 91 93 ?s2"
  have j1: "clear_of is_pair_open ?s1" by (rule clear_pass [OF four_pairs(1) j j])
  have j2: "clear_of is_pair_open ?s2" by (rule clear_pass [OF four_pairs(2) j1 j1])
  have k1: "clear_of is_scheme_char ?s1" by (rule clear_pass [OF four_pairs(1) j k])
  have k2: "clear_of is_scheme_char ?s2" by (rule clear_pass [OF four_pairs(2) j1 k1])
  have k3: "clear_of is_scheme_char ?s3" by (rule clear_pass [OF four_pairs(3) j2 k2])
  have u0: "\<not> url_search ?s0" by (rule remove_urls_no_url)
  have u1: "\<not> url_search ?s1" by (rule url_not_formed [OF four_pairs(1) k u0])
  have u2: "\<not> url_search ?s2" by (rule url_not_formed [OF four_pairs(2) k1 u1])
  have u3: "\<not> url_search ?s3" by (rule url_not_formed [OF four_pairs(3) k2 u2])
  have "\<not> url_search (remove_pair 12304 12305 ?s3)" by (rule url_not_formed [OF four_pairs(4) k3 u3])
  then show ?thesis unfolding clean_text_def .
qed

lemma generate_audio_posts:
  assumes "strip (clean_text t) \<noteq> []"
    and "fst (generate_cache_file_name e f (response_format self)) = Inr cache_file"
    and "api_url self = Some url"
  shows "posted_inputs (snd (generate_audio self e (Some t) f)) = [clean_text t]"
proof -
  obtain evs where g: "generate_cache_file_name e f (response_format self) = (Inr cache_file, evs)"
    using assms(2) by (cases "generate_cache_file_name e f (response_format self)") simp
  have evs: "posted_inputs evs = []"
    using generate_cache_file_name_inputs [of e f "response_format self"] g by simp
  obtain r' evs' where t:
    "try_request self e (build_payload self (clean_text t)) cache_file = (r', evs')"
    by (cases "try_request self e (build_payload self (clean_text t)) cache_file")
  have "posted_inputs evs' = [clean_text t]"
    using t assms(3)
    by (auto simp: try_request_def Let_def build_payload_def split: http_outcome.splits if_splits)
  with g evs t assms(1) show ?thesis
    by (cases r') (simp_all add: generate_audio_def Let_def posted_inputs_append)
qed


section \<open>The dispatcher and the backend: claims\<close>

text \<open>
  C6, as amended: for every text whose filtered form is empty after trimming, the
  dispatcher still calls the backend's \<open>generate_audio\<close>, with the filtered text; the
  SiliconFlow backend then returns the empty string at once: the whole trace of the
  dispatch is that one call, so no cache directory or file is created and no request is
  sent.
\<close>

theorem blank_text_skips_synthesis:
  assumes "filter_stream_text st (Some t) = (st', Some safe)" and "strip safe = []"
  shows "async_generate_audio (generate_audio self e) st (Some t) f =
           (st', Inr [], [Generate_Audio_Called (Some safe)])"
  using assms
  by (simp add: async_generate_audio_result generate_audio_def clean_text_blank)

theorem blank_text_skips_synthesis_witness:
  "filter_stream_text None (Some (u ''(only link content)'')) = (Some False, Some []) \<and>
   strip [] = [] \<and>
   async_generate_audio (generate_audio example_tts (example_env Request_Raises False)) None
     (Some (u ''(only link content)'')) None = (Some False, Inr [], [Generate_Audio_Called (Some [])])"
  using blank_text_skips_synthesis [OF only_link_content, of example_tts "example_env Request_Raises False" None]
    only_link_content
  by (simp add: strip_def)

text \<open>
  C6 as stated fails: for \<open>"(only link content)"\<close> the backend's synchronous
  operation is called.
\<close>

theorem blank_text_counterexample:
  "Generate_Audio_Called (Some []) \<in> set (snd (snd
     (async_generate_audio (generate_audio example_tts (example_env Request_Raises False)) None
        (Some (u ''(only link content)'')) None)))"
  unfolding async_generate_audio_result [OF only_link_content]
  by (simp add: generate_audio_def)




text \<open>
  C10, as amended: the backend cleans its text itself, and every request it sends
  carries the cleaned text; a request that is sent carries nothing else. The URL pass
  leaves no match of \<open>https?://\S+\<close> and leaves a text without a match as it is;
  a text without an empty pair passes the pair removal unchanged. When, in the text after
  the URL pass, no empty pair stands right after an opening bracket, the text of the
  request holds none of the four empty pairs; when moreover none stands right after a
  character of \<open>https://\<close>, it holds no URL match either.
\<close>

theorem backend_cleanup:
  "set (posted_inputs (snd (generate_audio self e (Some t) f))) \<subseteq> {clean_text t} \<and>
   (strip (clean_text t) \<noteq> [] \<and>
    fst (generate_cache_file_name e f (response_format self)) = Inr cache_file \<and>
    api_url self = Some url \<longrightarrow>
      posted_inputs (snd (generate_audio self e (Some t) f)) = [clean_text t]) \<and>
   \<not> url_search (remove_urls t) \<and>
   (\<not> url_search t \<longrightarrow> remove_urls t = t) \<and>
   (\<not> has_empty_pair (remove_urls t) \<longrightarrow> clean_text t = remove_urls t) \<and>
   (no_nested_pair (remove_urls t) \<longrightarrow> \<not> has_empty_pair (clean_text t)) \<and>
   (no_nested_pair (remove_urls t) \<and> no_pair_in_scheme (remove_urls t) \<longrightarrow>
      \<not> url_search (clean_text t))"
proof (intro conjI impI)
  show "set (posted_inputs (snd (generate_audio self e (Some t) f))) \<subseteq> {clean_text t}"
    by (rule generate_audio_inputs)
next
  assume "strip (clean_text t) \<noteq> [] \<and>
    fst (generate_cache_file_name e f (response_format self)) = Inr cache_file \<and>
    api_url self = Some url"
  then show "posted_inputs (snd (generate_audio self e (Some t) f)) = [clean_text t]"
    using generate_audio_posts by blast
next
  show "\<not> url_search (remove_urls t)" by (rule remove_urls_no_url)
next
  assume "\<not> url_search t"
  then show "remove_urls t = t" by (rule remove_urls_id)
next
  assume "\<not> has_empty_pair (remove_urls t)"
  then show "clean_text t = remove_urls t"
    by (simp add: has_empty_pair_def clean_text_def remove_pair_id)
next
  assume "no_nested_pair (remove_urls t)"
  then have "clear_of is_pair_open (remove_urls t)"
    unfolding no_nested_pair_def clear_of_iff .
  then show "\<not> has_empty_pair (clean_text t)" by (rule clean_text_no_pair)
next
  assume "no_nested_pair (remove_urls t) \<and> no_pair_in_scheme (remove_urls t)"
  then have "clear_of is_pair_open (remove_urls t)" and "clear_of is_scheme_char (remove_urls t)"
    unfolding no_nested_pair_def no_pair_in_scheme_def clear_of_iff by simp_all
  then show "\<not> url_search (clean_text t)" by (rule clean_text_no_url)
qed

theorem backend_cleanup_witness:
  "no_nested_pair (remove_urls (u ''hi () http://x.y there[]'')) \<and>
   no_pair_in_scheme (remove_urls (u ''hi () http://x.y there[]'')) \<and>
   clean_text (u ''hi () http://x.y there[]'') = u ''hi   there'' \<and>
   posted_inputs (snd (generate_audio example_tts (example_env (Response 200 ''RIFF'') False)
      (Some (u ''hi () http://x.y there[]'')) None)) = [u ''hi   there''] \<and>
   \<not> has_empty_pair (u ''hi   there'') \<and> \<not> url_search (u ''hi   there'')"
proof -
  let ?t = "u ''hi () http://x.y there[]''"
  have r: "remove_urls ?t = u ''hi ()  there[]''"
    by (simp add: match_url_def match_tail_def is_space_def)
  have n: "no_nested_pair (remove_urls ?t)"
    unfolding r
    by (simp add: no_nested_pair_def is_pair_open_def pair_after_def sublist_Cons_right)
  have k: "no_pair_in_scheme (remove_urls ?t)"
    unfolding r
    by (simp add: no_pair_in_scheme_def is_scheme_char_def pair_after_def sublist_Cons_right)
  have c: "clean_text ?t = u ''hi   there''"
    unfolding clean_text_def r by simp
  have s: "strip (clean_text ?t) \<noteq> []"
    unfolding c by (simp add: strip_def is_space_def)
  have url: "api_url example_tts = Some (u ''https://api.example/v1/audio/speech'')"
    by (simp add: example_tts_def)
  note inst = backend_cleanup [of example_tts "example_env (Response 200 ''RIFF'') False" ?t None
      "u ''cache/temp.mp3''" "u ''https://api.example/v1/audio/speech''"]
  from inst s example_cache_file url
  have p: "posted_inputs (snd (generate_audio example_tts (example_env (Response 200 ''RIFF'') False)
      (Some ?t) None)) = [clean_text ?t]" by blast
  from inst n have h: "\<not> has_empty_pair (clean_text ?t)" by blast
  from inst n k have v: "\<not> url_search (clean_text ?t)" by blast
  show ?thesis using n k c p h v by (simp only:) simp
qed

text \<open>
  C10 as stated fails: the request for \<open>"a(())"\<close> carries \<open>"a()"\<close>, and the one for
  \<open>"http:()//x.com"\<close> carries the URL that removing the pair has formed.
\<close>

theorem backend_cleanup_counterexample:
  "posted_inputs (snd (generate_audio example_tts (example_env Request_Raises False)
      (Some (u ''a(())'')) None)) = [u ''a()''] \<and>
   sublist (u ''()'') (u ''a()'') \<and>
   posted_inputs (snd (generate_audio example_tts (example_env Request_Raises False)
      (Some (u ''http:()//x.com'')) None)) = [u ''http://x.com''] \<and>
   url_search (u ''http://x.com'')"
proof -
  have 1: "clean_text (u ''a(())'') = u ''a()''"
    by (simp add: clean_text_def match_url_def)
  have 2: "clean_text (u ''http:()//x.com'') = u ''http://x.com''"
    by (simp add: clean_text_def match_url_def match_tail_def)
  have 3: "strip (u ''a()'') \<noteq> []" "strip (u ''http://x.com'') \<noteq> []"
    by (simp_all add: strip_def is_space_def)
  have 4: "url_search (u ''http://x.com'')"
    by (simp add: match_url_def match_tail_def is_space_def)
  have 5: "sublist (u ''()'') (u ''a()'')"
    by (simp add: sublist_Cons_right)
  have 6: "posted_inputs (snd (generate_audio example_tts (example_env Request_Raises False)
      (Some (u ''a(())'')) None)) = [u ''a()'']"
    using 3 by (simp add: generate_audio_def 1 Let_def generate_cache_file_name_def
        example_env_def posix_join_def example_tts_def try_request_def build_payload_def del: u_simps)
  have 7: "posted_inputs (snd (generate_audio example_tts (example_env Request_Raises False)
      (Some (u ''http:()//x.com'')) None)) = [u ''http://x.com'']"
    using 3 by (simp add: generate_audio_def 2 Let_def generate_cache_file_name_def
        example_env_def posix_join_def example_tts_def try_request_def build_payload_def del: u_simps)
  show ?thesis using 4 5 6 7 by blast
qed

section \<open>Context retrieval: claims\<close>

text \<open>
  C9: when the retrieval collaborator is unavailable (the store did not load, the search
  raises, or it returns no documents), \<open>_retrieve_context\<close> returns the empty
  string and \<open>_to_messages\<close> returns the messages of the base class unchanged; a store
  that failed to load is unavailable, and \<open>_retrieve_context\<close> returns a string
  whatever the store does.
\<close>

theorem retrieval_unavailable_degrades:
  assumes "unavailable store query k"
  shows "retrieve_context store query k = Inr [] \<and>
         (k = 3 \<longrightarrow> to_messages store messages query date_info = Inr messages) \<and>
         unavailable (rag_init Load_Raises) query k \<and>
         (\<forall>store' query' k'. \<exists>c. retrieve_context store' query' k' = Inr c)"
proof -
  have r: "retrieve_context store query k = Inr []"
    using assms
    by (auto simp: unavailable_def retrieve_context_def try_retrieve_def split: option.splits)
  have "to_messages store messages query date_info = Inr messages"
    if "retrieve_context store query 3 = Inr []"
    using that by (simp add: to_messages_def)
  with r have "k = 3 \<longrightarrow> to_messages store messages query date_info = Inr messages"
    by blast
  moreover have "unavailable (rag_init Load_Raises) query k"
    by (simp add: unavailable_def rag_init_def)
  ultimately show ?thesis using r retrieve_context_total by blast
qed

theorem retrieval_unavailable_degrades_witness:
  "unavailable (Some (\<lambda>q k. Search_Raises)) (u ''when'') 3 \<and>
   unavailable (Some (\<lambda>q k. Search_Returns [])) (u ''when'') 3 \<and>
   retrieve_context (Some (\<lambda>q k. Search_Raises)) (u ''when'') 3 = Inr [] \<and>
   retrieve_context (Some (\<lambda>q k. Search_Returns [])) (u ''when'') 3 = Inr [] \<and>
   to_messages (Some (\<lambda>q k. Search_Raises))
     [\<lparr>role = u ''user'', content = Text (u ''when'')\<rparr>] (u ''when'') (u ''today'') =
     Inr [\<lparr>role = u ''user'', content = Text (u ''when'')\<rparr>]"
proof -
  have 1: "unavailable (Some (\<lambda>q k. Search_Raises)) (u ''when'') 3"
    and 2: "unavailable (Some (\<lambda>q k. Search_Returns [])) (u ''when'') 3"
    by (simp_all add: unavailable_def)
  show ?thesis
    using retrieval_unavailable_degrades [OF 1, of "[\<lparr>role = u ''user'', content = Text (u ''when'')\<rparr>]" "u ''today''"]
      retrieval_unavailable_degrades [OF 2, of "[]" "[]"] 1 2
    by simp
qed

end
